theory Spec2Isabelle
  imports Main "HOL-Library.Multiset"
begin

section \<open>Parameter packs\<close>

text \<open>
  The header \<^verbatim>\<open>parameters_pack.hpp\<close> works on a pack of constants
  (\<^verbatim>\<open>const auto... params\<close>) that is passed by value to overloaded
  \<^verbatim>\<open>constexpr\<close> functions. An element of the pack is a constant together with its
  static type. Types are kept abstract (\<open>'ty\<close>, compared by identity), and so are the
  values (\<open>'v\<close>). A type here is a type that a constant passed by value can have: an
  object type without top-level \<^verbatim>\<open>const\<close>, which a by-value parameter drops; the
  types of the allowed list and the target type of the extraction are such types too.
\<close>

type_synonym ('ty, 'v) param = "'ty \<times> 'v"

text \<open>
  The implicit conversions of the translation unit: \<open>conv X T = Some f\<close> when a value of
  type \<open>X\<close> converts implicitly to the different type \<open>T\<close>, and \<open>f\<close> is what the
  conversion does to the value. Nothing is assumed about it; the scoped enumerations of
  the Readme have none.
\<close>

type_synonym ('ty, 'v) conv = "'ty \<Rightarrow> 'ty \<Rightarrow> ('v \<Rightarrow> 'v) option"

text \<open>Initialising a by-value parameter of type \<open>T\<close> from an argument.\<close>

definition pass :: "('ty, 'v) conv \<Rightarrow> 'ty \<Rightarrow> ('ty, 'v) param \<Rightarrow> 'v option" where
  "pass conv T a =
     (if fst a = T then Some (snd a)
      else map_option (\<lambda>f. f (snd a)) (conv (fst a) T))"

section \<open>Overload resolution\<close>

text \<open>
  Every function of the header is an overload set, and which body runs is decided by
  overload resolution on the static types of the arguments. A declaration is described
  by the types of its parameters: a concrete type (\<^verbatim>\<open>const Type first\<close>), or a type
  template parameter deduced from the argument (\<^verbatim>\<open>const First first\<close>, numbered
  within the declaration), followed or not by a function parameter pack
  (\<^verbatim>\<open>const Rest... rest\<close>).
\<close>

datatype 'ty ptype = Concrete 'ty | TParam nat

record 'ty overload =
  templ :: bool
  params :: "'ty ptype list"
  rest_pack :: bool

text \<open>
  The implicit conversion sequence of an argument: the identity, or a conversion. An
  identity is better than any conversion; the only conversions that this header can make
  compete (in the two overloads of \<^verbatim>\<open>extract\<close> whose first parameter is a
  \<^verbatim>\<open>const Type\<close>) have the same target type and are the same sequence.
\<close>

datatype rank = Exact | Conversion

fun worse :: "rank \<Rightarrow> rank \<Rightarrow> bool" where
  "worse Conversion Exact = True"
| "worse r s = False"

definition ics :: "('ty, 'v) conv \<Rightarrow> 'ty \<Rightarrow> 'ty \<Rightarrow> rank option" where
  "ics conv X T =
     (if X = T then Some Exact
      else case conv X T of None \<Rightarrow> None | Some f \<Rightarrow> Some Conversion)"

text \<open>
  Viability of a declaration for a call with arguments of types \<open>xs\<close>: template
  argument deduction (\<open>\<sigma>\<close> holds the types deduced so far; a parameter deduced twice
  must get the same type both times), the number of arguments, and a conversion sequence
  for every argument. The arguments taken by the trailing pack are identities.
\<close>

fun match_call ::
  "('ty, 'v) conv \<Rightarrow> (nat \<rightharpoonup> 'ty) \<Rightarrow> 'ty ptype list \<Rightarrow> bool \<Rightarrow> 'ty list \<Rightarrow> rank list option"
where
  "match_call conv \<sigma> [] pack xs =
     (if xs = [] \<or> pack then Some (map (\<lambda>X. Exact) xs) else None)"
| "match_call conv \<sigma> (p # ps) pack [] = None"
| "match_call conv \<sigma> (Concrete T # ps) pack (X # xs) =
     (case ics conv X T of
        None \<Rightarrow> None
      | Some r \<Rightarrow> map_option ((#) r) (match_call conv \<sigma> ps pack xs))"
| "match_call conv \<sigma> (TParam n # ps) pack (X # xs) =
     (case \<sigma> n of
        None \<Rightarrow> map_option ((#) Exact) (match_call conv (\<sigma>(n \<mapsto> X)) ps pack xs)
      | Some Y \<Rightarrow>
          if X = Y then map_option ((#) Exact) (match_call conv \<sigma> ps pack xs) else None)"

text \<open>
  Partial ordering of function templates, for a call with \<open>n\<close> arguments: the parameter
  types \<open>as\<close> of one template, its template parameters standing for unique types, are
  matched against the parameter types \<open>ps\<close> of the other. A concrete parameter type
  matches only itself (as in the example \<^verbatim>\<open>f<int>(1)\<close> of [temp.deduct.partial], and
  as GCC and Clang order templates); a type that comes from the pack of the one template
  does not match a parameter of the other that is not a pack.
\<close>

fun match_order ::
  "(nat \<rightharpoonup> 'ty ptype) \<Rightarrow> 'ty ptype list \<Rightarrow> bool \<Rightarrow> 'ty ptype list \<Rightarrow> nat \<Rightarrow> bool"
where
  "match_order \<sigma> ps pack as 0 = True"
| "match_order \<sigma> [] pack as (Suc n) = pack"
| "match_order \<sigma> (p # ps) pack [] (Suc n) = False"
| "match_order \<sigma> (Concrete T # ps) pack (a # as) (Suc n) =
     (a = Concrete T \<and> match_order \<sigma> ps pack as n)"
| "match_order \<sigma> (TParam k # ps) pack (a # as) (Suc n) =
     (case \<sigma> k of
        None \<Rightarrow> match_order (\<sigma>(k \<mapsto> a)) ps pack as n
      | Some b \<Rightarrow> a = b \<and> match_order \<sigma> ps pack as n)"

definition at_least_as_specialized :: "'ty overload \<Rightarrow> 'ty overload \<Rightarrow> nat \<Rightarrow> bool" where
  "at_least_as_specialized F G n =
     match_order Map.empty (params G) (rest_pack G) (params F) n"

text \<open>
  When each of two templates is at least as specialized as the other, the one without a
  trailing pack is more specialized than the one with it.
\<close>

definition more_specialized :: "'ty overload \<Rightarrow> 'ty overload \<Rightarrow> nat \<Rightarrow> bool" where
  "more_specialized F G n =
     (at_least_as_specialized F G n \<and>
      (\<not> at_least_as_specialized G F n \<or> (rest_pack G \<and> \<not> rest_pack F)))"

text \<open>
  \<open>F\<close> is a better candidate than \<open>G\<close>: no argument converts worse, and some argument
  converts better, or \<open>F\<close> is not a template and \<open>G\<close> is, or both are templates and
  \<open>F\<close> is more specialized.
\<close>

definition better :: "'ty overload \<Rightarrow> rank list \<Rightarrow> 'ty overload \<Rightarrow> rank list \<Rightarrow> bool" where
  "better F rs G ss =
     (list_all2 (\<lambda>r s. \<not> worse r s) rs ss \<and>
      (list_ex (\<lambda>(r, s). worse s r) (zip rs ss)
       \<or> (\<not> templ F \<and> templ G)
       \<or> (templ F \<and> templ G \<and> more_specialized F G (length rs))))"

definition viable ::
  "('ty, 'v) conv \<Rightarrow> 'ty overload list \<Rightarrow> 'ty list \<Rightarrow> (nat \<times> 'ty overload \<times> rank list) list"
where
  "viable conv ovls xs =
     List.map_filter
       (\<lambda>(i, F). map_option (\<lambda>rs. (i, F, rs))
                   (match_call conv Map.empty (params F) (rest_pack F) xs))
       (enumerate 0 ovls)"

text \<open>
  The call resolves to the one viable declaration that is better than every other viable
  one; its position in the overload set (in the order of the source, from 0) is
  returned. \<open>None\<close> is a call that does not compile: no viable declaration, or an
  ambiguity.
\<close>

definition resolve :: "('ty, 'v) conv \<Rightarrow> 'ty overload list \<Rightarrow> 'ty list \<Rightarrow> nat option" where
  "resolve conv ovls xs =
     (let cs = viable conv ovls xs in
      case filter (\<lambda>(i, F, rs). list_all (\<lambda>(j, G, ss). j = i \<or> better F rs G ss) cs) cs of
        [(i, F, rs)] \<Rightarrow> Some i
      | _ \<Rightarrow> None)"

text \<open>
  A constant expression is well formed only if all of its subexpressions are, also the
  ones whose value is not needed.
\<close>

fun ternary :: "bool option \<Rightarrow> 'a option \<Rightarrow> 'a option \<Rightarrow> 'a option" where
  "ternary (Some c) (Some a) (Some b) = Some (if c then a else b)"
| "ternary c a b = None"

fun and_also :: "bool option \<Rightarrow> bool option \<Rightarrow> bool option" where
  "and_also (Some a) (Some b) = Some (a \<and> b)"
| "and_also a b = None"

fun fold_and :: "bool option list \<Rightarrow> bool option" where
  "fold_and [] = Some True"
| "fold_and [e] = e"
| "fold_and (e # es) = and_also e (fold_and es)"

section \<open>\<^verbatim>\<open>check_v\<close>: membership in the type list\<close>

text \<open>
  \<^verbatim>\<open>check_v<TypeFirst, TypesRest...>\<close> is the primary template and
  \<^verbatim>\<open>check_v<TypeFirst>\<close> its partial specialization for a list of one type; the
  type list is \<open>TypeFirst\<close> and the list \<open>TypesRest\<close>. Both declare
  \<^verbatim>\<open>list_contains_param_v(const TypeFirst)\<close> and the template
  \<^verbatim>\<open>list_contains_param_v(const Value)\<close>.
\<close>

definition list_contains_param_v_overloads :: "'ty \<Rightarrow> 'ty overload list" where
  "list_contains_param_v_overloads TypeFirst =
     [\<lparr>templ = False, params = [Concrete TypeFirst], rest_pack = False\<rparr>,
      \<lparr>templ = True, params = [TParam 0], rest_pack = False\<rparr>]"

fun list_contains_param_v ::
  "('ty, 'v) conv \<Rightarrow> 'ty \<Rightarrow> 'ty list \<Rightarrow> ('ty, 'v) param \<Rightarrow> bool option"
where
  "list_contains_param_v conv TypeFirst [] val =
     (case resolve conv (list_contains_param_v_overloads TypeFirst) [fst val] of
        None \<Rightarrow> None
      | Some i \<Rightarrow> if i = 0 then Some True else Some False)"
| "list_contains_param_v conv TypeFirst (T # TypesRest) val =
     (case resolve conv (list_contains_param_v_overloads TypeFirst) [fst val] of
        None \<Rightarrow> None
      | Some i \<Rightarrow> if i = 0 then Some True else list_contains_param_v conv T TypesRest val)"

definition params_types_v_overloads :: "'ty overload list" where
  "params_types_v_overloads =
     [\<lparr>templ = False, params = [], rest_pack = False\<rparr>,
      \<lparr>templ = True, params = [TParam 0], rest_pack = True\<rparr>]"

fun params_types_v ::
  "('ty, 'v) conv \<Rightarrow> 'ty \<Rightarrow> 'ty list \<Rightarrow> ('ty, 'v) param list \<Rightarrow> bool option"
where
  "params_types_v conv TypeFirst TypesRest pack =
     (case resolve conv params_types_v_overloads (map fst pack) of
        None \<Rightarrow> None
      | Some i \<Rightarrow>
          if i = 0 then Some True
          else (case pack of
                  [] \<Rightarrow> None
                | first # rest \<Rightarrow>
                    ternary (list_contains_param_v conv TypeFirst TypesRest first)
                      (params_types_v conv TypeFirst TypesRest rest) (Some False)))"

declare params_types_v.simps [simp del]

section \<open>\<^verbatim>\<open>duplicate\<close>: pairwise comparison of types\<close>

definition is_same_v_overloads :: "'ty overload list" where
  "is_same_v_overloads =
     [\<lparr>templ = True, params = [TParam 0, TParam 0], rest_pack = False\<rparr>,
      \<lparr>templ = True, params = [TParam 0, TParam 1], rest_pack = False\<rparr>]"

definition is_same_v :: "('ty, 'v) conv \<Rightarrow> ('ty, 'v) param \<Rightarrow> ('ty, 'v) param \<Rightarrow> bool option" where
  "is_same_v conv a b =
     (case resolve conv is_same_v_overloads [fst a, fst b] of
        None \<Rightarrow> None
      | Some i \<Rightarrow> if i = 0 then Some True else Some False)"

definition is_duplicates_v_overloads :: "'ty overload list" where
  "is_duplicates_v_overloads =
     [\<lparr>templ = False, params = [], rest_pack = False\<rparr>,
      \<lparr>templ = True, params = [TParam 0], rest_pack = False\<rparr>,
      \<lparr>templ = True, params = [TParam 0], rest_pack = True\<rparr>]"

text \<open>
  The third overload folds \<^verbatim>\<open>!is_same_v(first, rest)\<close> over the rest of the pack
  with \<^verbatim>\<open>&&\<close>, and goes on with the rest.
\<close>

fun is_duplicates_v :: "('ty, 'v) conv \<Rightarrow> ('ty, 'v) param list \<Rightarrow> bool option" where
  "is_duplicates_v conv pack =
     (case resolve conv is_duplicates_v_overloads (map fst pack) of
        None \<Rightarrow> None
      | Some i \<Rightarrow>
          if i = 0 then Some True
          else if i = 1 then Some True
          else (case pack of
                  [] \<Rightarrow> None
                | first # rest \<Rightarrow>
                    and_also
                      (fold_and (map (\<lambda>r. map_option Not (is_same_v conv first r)) rest))
                      (is_duplicates_v conv rest)))"

declare is_duplicates_v.simps [simp del]

section \<open>The public operations\<close>

text \<open>
  \<^verbatim>\<open>value<Type, defaultValue>::extract\<close> has five overloads: of no argument, of one
  \<^verbatim>\<open>Type\<close>, of one argument of any type, of a \<^verbatim>\<open>Type\<close> followed by a pack, and
  of an argument of any type followed by a pack.
\<close>

definition extract_overloads :: "'ty \<Rightarrow> 'ty overload list" where
  "extract_overloads Type =
     [\<lparr>templ = False, params = [], rest_pack = False\<rparr>,
      \<lparr>templ = False, params = [Concrete Type], rest_pack = False\<rparr>,
      \<lparr>templ = True, params = [TParam 0], rest_pack = False\<rparr>,
      \<lparr>templ = True, params = [Concrete Type], rest_pack = True\<rparr>,
      \<lparr>templ = True, params = [TParam 0], rest_pack = True\<rparr>]"

fun value_extract :: "('ty, 'v) conv \<Rightarrow> 'ty \<Rightarrow> 'v \<Rightarrow> ('ty, 'v) param list \<Rightarrow> 'v option" where
  "value_extract conv Type defaultValue pack =
     (case resolve conv (extract_overloads Type) (map fst pack) of
        None \<Rightarrow> None
      | Some i \<Rightarrow>
          if i = 0 then Some defaultValue
          else (case pack of
                  [] \<Rightarrow> None
                | first # rest \<Rightarrow>
                    if i = 1 then pass conv Type first
                    else if i = 2 then Some defaultValue
                    else if i = 3 then pass conv Type first
                    else value_extract conv Type defaultValue rest))"

declare value_extract.simps [simp del]

text \<open>
  The template argument \<^verbatim>\<open>defaultValue\<close> is \<^verbatim>\<open>Type{}\<close> when the caller gives
  none; \<open>init Type\<close> is that value.
\<close>

definition default_argument :: "('ty \<Rightarrow> 'v) \<Rightarrow> 'ty \<Rightarrow> 'v option \<Rightarrow> 'v" where
  "default_argument init Type given = (case given of None \<Rightarrow> init Type | Some d \<Rightarrow> d)"

definition check_overloads :: "'ty overload list" where
  "check_overloads =
     [\<lparr>templ = False, params = [], rest_pack = False\<rparr>,
      \<lparr>templ = True, params = [TParam 0], rest_pack = True\<rparr>]"

definition check ::
  "('ty, 'v) conv \<Rightarrow> 'ty \<Rightarrow> 'ty list \<Rightarrow> ('ty, 'v) param list \<Rightarrow> bool option"
where
  "check conv TypeFirst TypesRest pack =
     (case resolve conv check_overloads (map fst pack) of
        None \<Rightarrow> None
      | Some i \<Rightarrow>
          if i = 0 then Some True
          else params_types_v conv TypeFirst TypesRest pack)"

definition no_duplicates_overloads :: "'ty overload list" where
  "no_duplicates_overloads =
     [\<lparr>templ = False, params = [], rest_pack = False\<rparr>,
      \<lparr>templ = True, params = [TParam 0], rest_pack = False\<rparr>,
      \<lparr>templ = True, params = [TParam 0], rest_pack = True\<rparr>]"

definition no_duplicates :: "('ty, 'v) conv \<Rightarrow> ('ty, 'v) param list \<Rightarrow> bool option" where
  "no_duplicates conv pack =
     (case resolve conv no_duplicates_overloads (map fst pack) of
        None \<Rightarrow> None
      | Some i \<Rightarrow>
          if i = 0 then Some True
          else if i = 1 then Some True
          else is_duplicates_v conv pack)"

section \<open>The calls that an evaluation makes\<close>

text \<open>
  The recursive functions again, each returning with its result the overloads that the
  evaluation enters, the outermost call first; the number of recursive calls is the
  length of that list less one. The bodies are the ones above. In
  \<^verbatim>\<open>list_contains_param_v(first) ? params_types_v(rest...) : false\<close> the nested call
  is evaluated only when the condition is true, and in
  \<^verbatim>\<open>(!is_same_v(first, rest) && ...) && is_duplicates_v(rest...)\<close> only when the
  left operand is true; the nested call has to be well formed in either case.
\<close>

fun params_types_v_traced ::
  "('ty, 'v) conv \<Rightarrow> 'ty \<Rightarrow> 'ty list \<Rightarrow> ('ty, 'v) param list \<Rightarrow> (bool \<times> nat list) option"
where
  "params_types_v_traced conv TypeFirst TypesRest pack =
     (case resolve conv params_types_v_overloads (map fst pack) of
        None \<Rightarrow> None
      | Some i \<Rightarrow>
          if i = 0 then Some (True, [i])
          else (case pack of
                  [] \<Rightarrow> None
                | first # rest \<Rightarrow>
                    (case list_contains_param_v conv TypeFirst TypesRest first of
                       None \<Rightarrow> None
                     | Some c \<Rightarrow>
                         (case params_types_v_traced conv TypeFirst TypesRest rest of
                            None \<Rightarrow> None
                          | Some (r, calls) \<Rightarrow>
                              if c then Some (r, i # calls) else Some (False, [i])))))"

declare params_types_v_traced.simps [simp del]

fun is_duplicates_v_traced ::
  "('ty, 'v) conv \<Rightarrow> ('ty, 'v) param list \<Rightarrow> (bool \<times> nat list) option"
where
  "is_duplicates_v_traced conv pack =
     (case resolve conv is_duplicates_v_overloads (map fst pack) of
        None \<Rightarrow> None
      | Some i \<Rightarrow>
          if i = 0 then Some (True, [i])
          else if i = 1 then Some (True, [i])
          else (case pack of
                  [] \<Rightarrow> None
                | first # rest \<Rightarrow>
                    (case fold_and (map (\<lambda>r. map_option Not (is_same_v conv first r)) rest) of
                       None \<Rightarrow> None
                     | Some c \<Rightarrow>
                         (case is_duplicates_v_traced conv rest of
                            None \<Rightarrow> None
                          | Some (r, calls) \<Rightarrow>
                              if c then Some (r, i # calls) else Some (False, [i])))))"

declare is_duplicates_v_traced.simps [simp del]

fun value_extract_traced ::
  "('ty, 'v) conv \<Rightarrow> 'ty \<Rightarrow> 'v \<Rightarrow> ('ty, 'v) param list \<Rightarrow> ('v \<times> nat list) option"
where
  "value_extract_traced conv Type defaultValue pack =
     (case resolve conv (extract_overloads Type) (map fst pack) of
        None \<Rightarrow> None
      | Some i \<Rightarrow>
          if i = 0 then Some (defaultValue, [i])
          else (case pack of
                  [] \<Rightarrow> None
                | first # rest \<Rightarrow>
                    if i = 1 then map_option (\<lambda>v. (v, [i])) (pass conv Type first)
                    else if i = 2 then Some (defaultValue, [i])
                    else if i = 3 then map_option (\<lambda>v. (v, [i])) (pass conv Type first)
                    else (case value_extract_traced conv Type defaultValue rest of
                            None \<Rightarrow> None
                          | Some (v, calls) \<Rightarrow> Some (v, i # calls))))"

declare value_extract_traced.simps [simp del]

text \<open>
  \<^verbatim>\<open>types<...>::check\<close> and \<^verbatim>\<open>no_duplicates\<close> do not recurse themselves: they
  return at once on the empty pack (\<^verbatim>\<open>no_duplicates\<close> also on a pack of one
  element) and otherwise hand the pack to \<^verbatim>\<open>params_types_v\<close> and
  \<^verbatim>\<open>is_duplicates_v\<close>, whose calls are the ones listed.
\<close>

definition check_traced ::
  "('ty, 'v) conv \<Rightarrow> 'ty \<Rightarrow> 'ty list \<Rightarrow> ('ty, 'v) param list \<Rightarrow> (bool \<times> nat list) option"
where
  "check_traced conv TypeFirst TypesRest pack =
     (case resolve conv check_overloads (map fst pack) of
        None \<Rightarrow> None
      | Some i \<Rightarrow>
          if i = 0 then Some (True, [])
          else params_types_v_traced conv TypeFirst TypesRest pack)"

definition no_duplicates_traced ::
  "('ty, 'v) conv \<Rightarrow> ('ty, 'v) param list \<Rightarrow> (bool \<times> nat list) option"
where
  "no_duplicates_traced conv pack =
     (case resolve conv no_duplicates_overloads (map fst pack) of
        None \<Rightarrow> None
      | Some i \<Rightarrow>
          if i = 0 then Some (True, [])
          else if i = 1 then Some (True, [])
          else is_duplicates_v_traced conv pack)"

section \<open>The types of the Readme\<close>

text \<open>
  The optional settings of the GPIO driver of the Readme are scoped enumerations; a
  constant is given by its underlying value (\<^verbatim>\<open>Pull::Up\<close> is 3,
  \<^verbatim>\<open>McuSel::Peripheral\<close> is 2, \<^verbatim>\<open>Input::Disconnect\<close> is 1). A scoped
  enumeration converts implicitly to nothing, and \<^verbatim>\<open>Type{}\<close> is its zero.
\<close>

datatype gpio_type = Input | Pull | Drive | Sense | McuSel

definition scoped_enums :: "(gpio_type, int) conv" where
  "scoped_enums X T = None"

definition enum_init :: "gpio_type \<Rightarrow> int" where
  "enum_init T = 0"

text \<open>Integer types, which convert implicitly to one another.\<close>

datatype integer_type = Short_int | Plain_int | Long_int

definition integer_conversions :: "(integer_type, int) conv" where
  "integer_conversions X T = (if X = T then None else Some (\<lambda>v. v))"

section \<open>What the calls resolve to\<close>

lemma all_exact:
  "list_all2 (\<lambda>r s. \<not> worse r s) (map (\<lambda>X. Exact) ys) (map (\<lambda>X. Exact) ys)"
  by (simp add: list_all2_map1 list_all2_map2 list_all2_same)

lemma none_better:
  "\<not> list_ex (\<lambda>(r, s). worse s r) (zip (map (\<lambda>X. Exact) ys) (map (\<lambda>X. Exact) ys))"
  by (induction ys) auto

lemmas resolve_unfold =
  resolve_def viable_def List.map_filter_simps better_def ics_def more_specialized_def
  at_least_as_specialized_def all_exact none_better

lemma resolve_list_contains_param_v:
  "resolve conv (list_contains_param_v_overloads TypeFirst) [X] =
     Some (if X = TypeFirst then 0 else 1)"
  by (cases "X = TypeFirst"; cases "conv X TypeFirst")
    (simp_all add: resolve_unfold list_contains_param_v_overloads_def)

lemma resolve_params_types_v:
  "resolve conv params_types_v_overloads [] = Some 0"
  "resolve conv params_types_v_overloads (X # xs) = Some 1"
  by (simp_all add: resolve_unfold params_types_v_overloads_def)

lemma resolve_check:
  "resolve conv check_overloads [] = Some 0"
  "resolve conv check_overloads (X # xs) = Some 1"
  by (simp_all add: resolve_unfold check_overloads_def)

lemma resolve_is_same_v:
  "resolve conv is_same_v_overloads [X, Y] = Some (if X = Y then 0 else 1)"
  by (cases "X = Y") (simp_all add: resolve_unfold is_same_v_overloads_def)

lemma resolve_is_duplicates_v:
  "resolve conv is_duplicates_v_overloads [] = Some 0"
  "resolve conv is_duplicates_v_overloads [X] = Some 1"
  "resolve conv is_duplicates_v_overloads (X # Y # ys) = Some 2"
  by (simp_all add: resolve_unfold is_duplicates_v_overloads_def)

lemma resolve_no_duplicates:
  "resolve conv no_duplicates_overloads [] = Some 0"
  "resolve conv no_duplicates_overloads [X] = Some 1"
  "resolve conv no_duplicates_overloads (X # Y # ys) = Some 2"
  by (simp_all add: resolve_unfold no_duplicates_overloads_def)

lemma resolve_extract_Nil: "resolve conv (extract_overloads Type) [] = Some 0"
  by (simp add: resolve_unfold extract_overloads_def)

lemma resolve_extract_single:
  "resolve conv (extract_overloads Type) [X] = Some (if X = Type then 1 else 2)"
  by (cases "X = Type"; cases "conv X Type")
    (simp_all add: resolve_unfold extract_overloads_def)

lemma resolve_extract_more:
  "resolve conv (extract_overloads Type) (X # Y # ys) = Some (if X = Type then 3 else 4)"
  by (cases "X = Type"; cases "conv X Type")
    (simp_all add: resolve_unfold extract_overloads_def)

lemmas resolve_extract = resolve_extract_Nil resolve_extract_single resolve_extract_more

section \<open>What the functions compute\<close>

lemma list_contains_param_v_eq:
  "list_contains_param_v conv TypeFirst TypesRest val =
     Some (fst val \<in> set (TypeFirst # TypesRest))"
  by (induction TypesRest arbitrary: TypeFirst) (auto simp: resolve_list_contains_param_v)

lemma params_types_v_eq:
  "params_types_v conv TypeFirst TypesRest pack =
     Some (list_all (\<lambda>p. fst p \<in> set (TypeFirst # TypesRest)) pack)"
proof (induction pack)
  case Nil
  show ?case by (simp add: params_types_v.simps resolve_params_types_v)
next
  case (Cons first rest)
  then show ?case
    by (simp add: params_types_v.simps [of _ _ _ "first # rest"] resolve_params_types_v
        list_contains_param_v_eq)
qed

lemma check_eq:
  "check conv TypeFirst TypesRest pack =
     Some (list_all (\<lambda>p. fst p \<in> set (TypeFirst # TypesRest)) pack)"
  by (cases pack) (simp_all add: check_def resolve_check params_types_v_eq)

lemma is_same_v_eq: "is_same_v conv a b = Some (fst a = fst b)"
  by (simp add: is_same_v_def resolve_is_same_v)

lemma fold_and_is_same_v:
  "fold_and (map (\<lambda>r. map_option Not (is_same_v conv first r)) rest) =
     Some (fst first \<notin> fst ` set rest)"
proof (induction rest)
  case Nil
  show ?case by simp
next
  case (Cons r rest)
  then show ?case by (cases rest) (auto simp: is_same_v_eq)
qed

lemma is_duplicates_v_eq: "is_duplicates_v conv pack = Some (distinct (map fst pack))"
proof (induction pack)
  case Nil
  show ?case by (simp add: is_duplicates_v.simps resolve_is_duplicates_v)
next
  case (Cons first rest)
  show ?case
  proof (cases rest)
    case Nil
    then show ?thesis by (simp add: is_duplicates_v.simps [of _ "[first]"] resolve_is_duplicates_v)
  next
    case (Cons r rest')
    with Cons.IH show ?thesis
      by (simp add: is_duplicates_v.simps [of _ "first # r # rest'"] resolve_is_duplicates_v
          fold_and_is_same_v del: fold_and.simps)
  qed
qed

lemma no_duplicates_eq: "no_duplicates conv pack = Some (distinct (map fst pack))"
proof (cases pack)
  case Nil
  then show ?thesis by (simp add: no_duplicates_def resolve_no_duplicates)
next
  case (Cons first rest)
  then show ?thesis
    by (cases rest) (simp_all add: no_duplicates_def resolve_no_duplicates is_duplicates_v_eq)
qed

lemma value_extract_Nil: "value_extract conv Type d [] = Some d"
  by (simp add: value_extract.simps resolve_extract)

lemma value_extract_Cons:
  "value_extract conv Type d (first # rest) =
     (if fst first = Type then Some (snd first) else value_extract conv Type d rest)"
proof (cases rest)
  case Nil
  then show ?thesis
    by (simp add: value_extract.simps [of _ _ _ "[first]"] resolve_extract pass_def
        value_extract_Nil)
next
  case (Cons r rest')
  then show ?thesis
    by (simp add: value_extract.simps [of _ _ _ "first # r # rest'"] resolve_extract pass_def)
qed

lemma value_extract_eq:
  "value_extract conv Type d pack =
     Some (case find (\<lambda>p. fst p = Type) pack of None \<Rightarrow> d | Some p \<Rightarrow> snd p)"
  by (induction pack) (simp_all add: value_extract_Nil value_extract_Cons)

lemma find_by_type_append:
  "\<forall>q\<in>set pre. fst q \<noteq> Type \<Longrightarrow>
     find (\<lambda>p. fst p = Type) (pre @ post) = find (\<lambda>p. fst p = Type) post"
  by (induction pre) auto

lemma find_by_type_distinct:
  "distinct (map fst pack) \<Longrightarrow>
     find (\<lambda>p. fst p = Type) pack = Some p \<longleftrightarrow> p \<in> set pack \<and> fst p = Type"
  by (induction pack) (auto simp: rev_image_eqI)

lemma find_by_type_permuted:
  assumes "mset pack' = mset pack" and "distinct (map fst pack)"
  shows "find (\<lambda>p. fst p = Type) pack' = find (\<lambda>p. fst p = Type) pack"
proof -
  have "mset (map fst pack') = mset (map fst pack)"
    using assms(1) by (metis mset_map)
  then have d: "distinct (map fst pack')"
    using assms(2) by (metis mset_eq_imp_distinct_iff)
  have s: "set pack' = set pack"
    using assms(1) by (rule mset_eq_setD)
  show ?thesis
  proof (cases "find (\<lambda>p. fst p = Type) pack")
    case None
    then have "\<forall>p\<in>set pack'. fst p \<noteq> Type"
      by (auto simp: find_None_iff s)
    then have "find (\<lambda>p. fst p = Type) pack' = None"
      by (auto simp: find_None_iff)
    with None show ?thesis by simp
  next
    case (Some p)
    then have "p \<in> set pack' \<and> fst p = Type"
      using find_by_type_distinct [OF assms(2)] s by blast
    then have "find (\<lambda>p. fst p = Type) pack' = Some p"
      using find_by_type_distinct [OF d] by blast
    with Some show ?thesis by simp
  qed
qed

lemma list_all_permuted: "mset xs = mset ys \<Longrightarrow> list_all P xs = list_all P ys"
  by (metis list_all_iff mset_eq_setD)

section \<open>The traced functions compute the same results\<close>

lemma params_types_v_traced_Nil:
  "params_types_v_traced conv TypeFirst TypesRest [] = Some (True, [0])"
  by (simp add: params_types_v_traced.simps resolve_params_types_v)

lemma params_types_v_traced_Cons:
  "params_types_v_traced conv TypeFirst TypesRest (first # rest) =
     (case params_types_v_traced conv TypeFirst TypesRest rest of
        None \<Rightarrow> None
      | Some (r, calls) \<Rightarrow>
          if fst first \<in> set (TypeFirst # TypesRest) then Some (r, 1 # calls)
          else Some (False, [1]))"
  by (simp add: params_types_v_traced.simps [of _ _ _ "first # rest"] resolve_params_types_v
      list_contains_param_v_eq split: option.split)

lemma params_types_v_traced_ends:
  "\<exists>calls.
     params_types_v_traced conv TypeFirst TypesRest pack =
       Some (list_all (\<lambda>p. fst p \<in> set (TypeFirst # TypesRest)) pack, calls) \<and>
     calls \<noteq> [] \<and> length calls \<le> Suc (length pack) \<and>
     last calls = (if list_all (\<lambda>p. fst p \<in> set (TypeFirst # TypesRest)) pack then 0 else 1)"
proof (induction pack)
  case Nil
  show ?case by (simp add: params_types_v_traced_Nil)
next
  case (Cons first rest)
  then obtain calls where
    "params_types_v_traced conv TypeFirst TypesRest rest =
       Some (list_all (\<lambda>p. fst p \<in> set (TypeFirst # TypesRest)) rest, calls)"
    "calls \<noteq> []" "length calls \<le> Suc (length rest)"
    "last calls = (if list_all (\<lambda>p. fst p \<in> set (TypeFirst # TypesRest)) rest then 0 else 1)"
    by blast
  then show ?case
    by (cases "fst first \<in> set (TypeFirst # TypesRest)")
      (simp_all add: params_types_v_traced_Cons)
qed

lemma params_types_v_traced_result:
  "map_option fst (params_types_v_traced conv TypeFirst TypesRest pack) =
     params_types_v conv TypeFirst TypesRest pack"
  using params_types_v_traced_ends [of conv TypeFirst TypesRest pack]
  by (auto simp: params_types_v_eq)

lemma is_duplicates_v_traced_Nil: "is_duplicates_v_traced conv [] = Some (True, [0])"
  by (simp add: is_duplicates_v_traced.simps resolve_is_duplicates_v)

lemma is_duplicates_v_traced_single: "is_duplicates_v_traced conv [first] = Some (True, [1])"
  by (simp add: is_duplicates_v_traced.simps [of _ "[first]"] resolve_is_duplicates_v)

lemma is_duplicates_v_traced_more:
  "is_duplicates_v_traced conv (first # r # rest) =
     (case is_duplicates_v_traced conv (r # rest) of
        None \<Rightarrow> None
      | Some (b, calls) \<Rightarrow>
          if fst first \<notin> fst ` set (r # rest) then Some (b, 2 # calls)
          else Some (False, [2]))"
  by (simp add: is_duplicates_v_traced.simps [of _ "first # r # rest"] resolve_is_duplicates_v
      fold_and_is_same_v del: fold_and.simps split: option.split)

lemma is_duplicates_v_traced_ends:
  "\<exists>calls.
     is_duplicates_v_traced conv pack = Some (distinct (map fst pack), calls) \<and>
     calls \<noteq> [] \<and> length calls \<le> Suc (length pack) \<and>
     last calls = (if pack = [] then 0 else if distinct (map fst pack) then 1 else 2)"
proof (induction pack)
  case Nil
  show ?case by (simp add: is_duplicates_v_traced_Nil)
next
  case (Cons first rest)
  show ?case
  proof (cases rest)
    case Nil
    then show ?thesis by (simp add: is_duplicates_v_traced_single)
  next
    case (Cons r rest')
    from Cons.IH obtain calls where
      "is_duplicates_v_traced conv rest = Some (distinct (map fst rest), calls)"
      "calls \<noteq> []" "length calls \<le> Suc (length rest)"
      "last calls = (if rest = [] then 0 else if distinct (map fst rest) then 1 else 2)"
      by blast
    with Cons show ?thesis
      by (cases "fst first \<notin> fst ` set (r # rest')")
        (simp_all add: is_duplicates_v_traced_more)
  qed
qed

lemma is_duplicates_v_traced_result:
  "map_option fst (is_duplicates_v_traced conv pack) = is_duplicates_v conv pack"
  using is_duplicates_v_traced_ends [of conv pack]
  by (auto simp: is_duplicates_v_eq)

lemma value_extract_traced_Nil: "value_extract_traced conv Type d [] = Some (d, [0])"
  by (simp add: value_extract_traced.simps resolve_extract)

lemma value_extract_traced_Cons:
  "value_extract_traced conv Type d (first # rest) =
     (if fst first = Type then Some (snd first, if rest = [] then [1] else [3])
      else if rest = [] then Some (d, [2])
      else (case value_extract_traced conv Type d rest of
              None \<Rightarrow> None
            | Some (v, calls) \<Rightarrow> Some (v, 4 # calls)))"
proof (cases rest)
  case Nil
  then show ?thesis
    by (simp add: value_extract_traced.simps [of _ _ _ "[first]"] resolve_extract pass_def)
next
  case (Cons r rest')
  then show ?thesis
    by (simp add: value_extract_traced.simps [of _ _ _ "first # r # rest'"] resolve_extract
        pass_def)
qed

lemma value_extract_traced_ends:
  "\<exists>v calls.
     value_extract_traced conv Type d pack = Some (v, calls) \<and>
     value_extract conv Type d pack = Some v \<and>
     calls \<noteq> [] \<and> length calls \<le> Suc (length pack) \<and> last calls \<in> {0, 1, 2, 3}"
proof (induction pack)
  case Nil
  show ?case by (simp add: value_extract_traced_Nil value_extract_Nil)
next
  case (Cons first rest)
  then obtain v calls where
    "value_extract_traced conv Type d rest = Some (v, calls)"
    "value_extract conv Type d rest = Some v"
    "calls \<noteq> []" "length calls \<le> Suc (length rest)" "last calls \<in> {0, 1, 2, 3}"
    by blast
  then show ?case
    by (cases "rest = []")
      (auto simp: value_extract_traced_Cons value_extract_Cons value_extract_Nil
        value_extract_traced_Nil)
qed

lemma value_extract_traced_result:
  "map_option fst (value_extract_traced conv Type d pack) = value_extract conv Type d pack"
  using value_extract_traced_ends [of conv Type d pack] by auto

lemma check_traced_result:
  "map_option fst (check_traced conv TypeFirst TypesRest pack) =
     check conv TypeFirst TypesRest pack"
  by (cases pack)
    (simp_all add: check_traced_def check_def resolve_check params_types_v_traced_result)

lemma no_duplicates_traced_result:
  "map_option fst (no_duplicates_traced conv pack) = no_duplicates conv pack"
proof (cases pack)
  case Nil
  then show ?thesis
    by (simp add: no_duplicates_traced_def no_duplicates_def resolve_no_duplicates)
next
  case (Cons first rest)
  then show ?thesis
    by (cases rest)
      (simp_all add: no_duplicates_traced_def no_duplicates_def resolve_no_duplicates
        is_duplicates_v_traced_result)
qed



section \<open>Claims\<close>

text \<open>
  Claim C1: for every pack and every non-empty list of allowed types,
  \<^verbatim>\<open>types<TypeFirst, TypesRest...>::check\<close> is true if and only if the static type of
  every element of the pack is, by identity, one of the allowed types.
\<close>

theorem check_iff_all_types_allowed:
  "check conv TypeFirst TypesRest pack =
     Some (\<forall>p\<in>set pack. fst p \<in> set (TypeFirst # TypesRest))"
  by (simp add: check_eq list_all_iff)

theorem check_iff_all_types_allowed_witness:
  "check scoped_enums Input [Pull, Drive] [(Input, 0), (Drive, 4)] = Some True \<and>
   check scoped_enums Input [Pull, Drive] [(Input, 0), (Sense, 2)] = Some False"
  using check_iff_all_types_allowed [of scoped_enums Input "[Pull, Drive]" "[(Input, 0), (Drive, 4)]"]
    check_iff_all_types_allowed [of scoped_enums Input "[Pull, Drive]" "[(Input, 0), (Sense, 2)]"]
  by simp

lemma pairwise_types_iff_distinct:
  "(\<forall>i<length pack. \<forall>j<length pack. i \<noteq> j \<longrightarrow> fst (pack ! i) \<noteq> fst (pack ! j)) =
     distinct (map fst pack)"
  by (simp add: distinct_conv_nth)

text \<open>
  Claim C2: \<^verbatim>\<open>no_duplicates\<close> is true if and only if no two elements of the pack
  have the same static type; two elements of one type make it false whatever their
  values are.
\<close>

theorem no_duplicates_iff_types_distinct:
  "no_duplicates conv pack =
     Some (\<forall>i<length pack. \<forall>j<length pack. i \<noteq> j \<longrightarrow> fst (pack ! i) \<noteq> fst (pack ! j))
   \<and> no_duplicates conv (pre @ (A, v1) # mid @ (A, v2) # post) = Some False"
  by (simp only: pairwise_types_iff_distinct no_duplicates_eq) simp

theorem no_duplicates_iff_types_distinct_witness:
  "no_duplicates scoped_enums [(Input, 0), (Pull, 3), (Drive, 1)] = Some True \<and>
   no_duplicates scoped_enums [(Input, 1), (Pull, 3), (Input, 1)] = Some False \<and>
   no_duplicates scoped_enums [(Input, 0), (Pull, 3), (Input, 1)] = Some False"
  using
    no_duplicates_iff_types_distinct
      [of scoped_enums "[(Input, 0), (Pull, 3), (Drive, 1)]" "[]" Input 1 "[(Pull, 3)]" 1 "[]"]
    no_duplicates_iff_types_distinct
      [of scoped_enums "[]" "[]" Input 0 "[(Pull, 3)]" 1 "[]"]
  by (simp only: pairwise_types_iff_distinct) simp

text \<open>
  Claim C3: when the pack has an element whose static type is \<^verbatim>\<open>Type\<close>,
  \<^verbatim>\<open>value<Type, defaultValue>::extract\<close> returns the first such element in the order
  of the pack, also when later elements have that type too.
\<close>

theorem extract_first_match:
  "\<forall>q\<in>set pre. fst q \<noteq> Type \<Longrightarrow>
     value_extract conv Type defaultValue (pre @ (Type, v) # post) = Some v"
  by (simp add: value_extract_eq find_by_type_append)

theorem extract_first_match_witness:
  "value_extract scoped_enums Pull 0 [(Input, 0), (Pull, 3), (Drive, 0)] = Some 3 \<and>
   value_extract scoped_enums Pull 0 [(Input, 0), (Pull, 3), (Pull, 1)] = Some 3"
  using
    extract_first_match [of "[(Input, 0)]" Pull scoped_enums 0 3 "[(Drive, 0)]"]
    extract_first_match [of "[(Input, 0)]" Pull scoped_enums 0 3 "[(Pull, 1)]"]
  by simp

text \<open>
  Claim C4: when no element of the pack has the static type \<^verbatim>\<open>Type\<close> (the empty
  pack included), \<^verbatim>\<open>extract\<close> returns \<^verbatim>\<open>defaultValue\<close>: the value the caller
  gave, or \<^verbatim>\<open>Type{}\<close> when the caller gave none.
\<close>

theorem extract_absent_returns_default:
  "\<forall>p\<in>set pack. fst p \<noteq> Type \<Longrightarrow>
     value_extract conv Type defaultValue pack = Some defaultValue \<and>
     value_extract conv Type (default_argument init Type None) pack = Some (init Type) \<and>
     value_extract conv Type (default_argument init Type (Some d)) pack = Some d"
proof -
  assume "\<forall>p\<in>set pack. fst p \<noteq> Type"
  then have "find (\<lambda>p. fst p = Type) pack = None"
    by (auto simp: find_None_iff)
  then show ?thesis
    by (simp add: value_extract_eq default_argument_def)
qed

theorem extract_absent_returns_default_witness:
  "value_extract scoped_enums Pull 0 [(Input, 0), (Drive, 0)] = Some 0 \<and>
   value_extract scoped_enums Input (default_argument enum_init Input None)
     [(Pull, 3), (McuSel, 2)] = Some 0 \<and>
   value_extract scoped_enums Input (default_argument enum_init Input (Some 1))
     [(Pull, 3), (McuSel, 2)] = Some 1 \<and>
   value_extract scoped_enums Input (default_argument enum_init Input (Some 1)) [] = Some 1"
  using
    extract_absent_returns_default [of "[(Input, 0), (Drive, 0)]" Pull scoped_enums 0 enum_init 0]
    extract_absent_returns_default [of "[(Pull, 3), (McuSel, 2)]" Input scoped_enums 0 enum_init 1]
    extract_absent_returns_default [of "[]" Input scoped_enums 0 enum_init 1]
  by (simp add: enum_init_def)

text \<open>
  Claim C5: on the empty pack, \<^verbatim>\<open>check\<close> is true for every non-empty list of allowed
  types, \<^verbatim>\<open>no_duplicates\<close> is true, and \<^verbatim>\<open>extract\<close> returns
  \<^verbatim>\<open>defaultValue\<close>.
\<close>

theorem empty_pack_identities:
  "check conv TypeFirst TypesRest [] = Some True \<and>
   no_duplicates conv [] = Some True \<and>
   value_extract conv Type defaultValue [] = Some defaultValue"
  by (simp add: check_eq no_duplicates_eq value_extract_Nil)

theorem empty_pack_identities_witness:
  "check scoped_enums Input [Pull, Drive, Sense, McuSel] [] = Some True \<and>
   no_duplicates scoped_enums [] = Some True \<and>
   value_extract scoped_enums Input 1 [] = Some 1"
  using empty_pack_identities [of scoped_enums Input "[Pull, Drive, Sense, McuSel]" Input 1]
  by simp

text \<open>
  Claim C6: \<^verbatim>\<open>check\<close> and \<^verbatim>\<open>no_duplicates\<close> give the same result on every
  permutation of a pack. \<^verbatim>\<open>extract\<close> gives the same result on a permutation that
  keeps the same element first among the elements of type \<^verbatim>\<open>Type\<close>, and so on
  every permutation of a pack that \<^verbatim>\<open>no_duplicates\<close> accepts.
\<close>

theorem order_independence:
  "mset pack' = mset pack \<Longrightarrow>
     check conv TypeFirst TypesRest pack' = check conv TypeFirst TypesRest pack \<and>
     no_duplicates conv pack' = no_duplicates conv pack \<and>
     (find (\<lambda>p. fst p = Type) pack' = find (\<lambda>p. fst p = Type) pack \<longrightarrow>
        value_extract conv Type d pack' = value_extract conv Type d pack) \<and>
     (no_duplicates conv pack = Some True \<longrightarrow>
        value_extract conv Type d pack' = value_extract conv Type d pack)"
proof -
  assume perm: "mset pack' = mset pack"
  have c: "check conv TypeFirst TypesRest pack' = check conv TypeFirst TypesRest pack"
    using list_all_permuted [OF perm] by (simp only: check_eq)
  have "mset (map fst pack') = mset (map fst pack)"
    using perm by simp
  then have "distinct (map fst pack') = distinct (map fst pack)"
    by (rule mset_eq_imp_distinct_iff)
  then have n: "no_duplicates conv pack' = no_duplicates conv pack"
    by (simp only: no_duplicates_eq)
  have e: "find (\<lambda>p. fst p = Type) pack' = find (\<lambda>p. fst p = Type) pack \<longrightarrow>
      value_extract conv Type d pack' = value_extract conv Type d pack"
    by (simp only: value_extract_eq) simp
  have f: "no_duplicates conv pack = Some True \<longrightarrow>
      value_extract conv Type d pack' = value_extract conv Type d pack"
  proof
    assume "no_duplicates conv pack = Some True"
    then have "distinct (map fst pack)"
      by (simp only: no_duplicates_eq) simp
    then have "find (\<lambda>p. fst p = Type) pack' = find (\<lambda>p. fst p = Type) pack"
      using perm by (rule find_by_type_permuted [rotated])
    then show "value_extract conv Type d pack' = value_extract conv Type d pack"
      by (simp only: value_extract_eq)
  qed
  from c n e f show ?thesis by (intro conjI)
qed

theorem order_independence_witness:
  "check scoped_enums Input [Pull, McuSel] [(McuSel, 2), (Pull, 3)] =
     check scoped_enums Input [Pull, McuSel] [(Pull, 3), (McuSel, 2)] \<and>
   no_duplicates scoped_enums [(McuSel, 2), (Pull, 3)] =
     no_duplicates scoped_enums [(Pull, 3), (McuSel, 2)] \<and>
   value_extract scoped_enums Pull 0 [(McuSel, 2), (Pull, 3)] =
     value_extract scoped_enums Pull 0 [(Pull, 3), (McuSel, 2)] \<and>
   value_extract scoped_enums Pull 0 [(Pull, 3), (McuSel, 2)] = Some 3 \<and>
   no_duplicates scoped_enums [(Pull, 3), (McuSel, 2)] = Some True"
proof -
  have perm: "mset [(McuSel, 2::int), (Pull, 3)] = mset [(Pull, 3), (McuSel, 2)]"
    by simp
  have nd: "no_duplicates scoped_enums [(Pull, 3), (McuSel, 2)] = Some True"
    by (simp add: no_duplicates_eq)
  have v: "value_extract scoped_enums Pull 0 [(Pull, 3), (McuSel, 2)] = Some 3"
    by (simp add: value_extract_eq)
  from order_independence [OF perm, of scoped_enums Input "[Pull, McuSel]" Pull 0] nd v
  show ?thesis by (simp only: simp_thms)
qed

text \<open>
  Claim C7: types are matched by identity in all three operations. A value whose type
  converts implicitly to an allowed type without being one is not accepted by
  \<^verbatim>\<open>check\<close>; two values of different types that convert to each other are not
  duplicates; and \<^verbatim>\<open>extract\<close> passes over a value whose type converts to
  \<^verbatim>\<open>Type\<close> without being \<^verbatim>\<open>Type\<close>.
\<close>

theorem exact_type_identity:
  "(T \<in> set (TypeFirst # TypesRest) \<and> conv X T = Some f \<and> X \<notin> set (TypeFirst # TypesRest) \<longrightarrow>
      list_contains_param_v conv TypeFirst TypesRest (X, v) = Some False \<and>
      check conv TypeFirst TypesRest (pre @ (X, v) # post) = Some False) \<and>
   (X \<noteq> Y \<and> conv X Y = Some f \<and> conv Y X = Some g \<longrightarrow>
      is_same_v conv (X, a) (Y, b) = Some False \<and>
      no_duplicates conv [(X, a), (Y, b)] = Some True) \<and>
   (X \<noteq> Type \<and> conv X Type = Some f \<longrightarrow>
      value_extract conv Type d [(X, v)] = Some d \<and>
      value_extract conv Type d (pre @ (X, v) # post) = value_extract conv Type d (pre @ post))"
proof (intro conjI impI)
  assume "T \<in> set (TypeFirst # TypesRest) \<and> conv X T = Some f \<and> X \<notin> set (TypeFirst # TypesRest)"
  then have x: "X \<notin> set (TypeFirst # TypesRest)" by simp
  then show "list_contains_param_v conv TypeFirst TypesRest (X, v) = Some False"
    by (simp only: list_contains_param_v_eq fst_conv)
  from x show "check conv TypeFirst TypesRest (pre @ (X, v) # post) = Some False"
    by (simp add: check_eq)
next
  assume "X \<noteq> Y \<and> conv X Y = Some f \<and> conv Y X = Some g"
  then have x: "X \<noteq> Y" by simp
  then show "is_same_v conv (X, a) (Y, b) = Some False"
    by (simp add: is_same_v_eq)
  from x show "no_duplicates conv [(X, a), (Y, b)] = Some True"
    by (simp add: no_duplicates_eq)
next
  assume "X \<noteq> Type \<and> conv X Type = Some f"
  then have x: "X \<noteq> Type" by simp
  then show "value_extract conv Type d [(X, v)] = Some d"
    by (simp add: value_extract_eq)
  have "find (\<lambda>p. fst p = Type) (pre @ (X, v) # post) = find (\<lambda>p. fst p = Type) (pre @ post)"
    using x by (induction pre) simp_all
  then show "value_extract conv Type d (pre @ (X, v) # post) = value_extract conv Type d (pre @ post)"
    by (simp only: value_extract_eq)
qed

theorem exact_type_identity_witness:
  "integer_conversions Short_int Plain_int = Some (\<lambda>v. v) \<and>
   integer_conversions Plain_int Short_int = Some (\<lambda>v. v) \<and>
   check integer_conversions Plain_int [Long_int] [(Plain_int, 1), (Short_int, 2), (Long_int, 3)] = Some False \<and>
   list_contains_param_v integer_conversions Plain_int [Long_int] (Short_int, 2) = Some False \<and>
   is_same_v integer_conversions (Short_int, 5) (Plain_int, 5) = Some False \<and>
   no_duplicates integer_conversions [(Short_int, 5), (Plain_int, 5)] = Some True \<and>
   value_extract integer_conversions Plain_int 0 [(Short_int, 2)] = Some 0 \<and>
   value_extract integer_conversions Plain_int 0 [(Long_int, 1), (Short_int, 2), (Plain_int, 3)] = Some 3"
proof -
  have c: "integer_conversions Short_int Plain_int = Some (\<lambda>v. v)"
    "integer_conversions Plain_int Short_int = Some (\<lambda>v. v)"
    by (simp_all add: integer_conversions_def)
  have r: "value_extract integer_conversions Plain_int 0 [(Long_int, 1), (Plain_int, 3)] = Some 3"
    by (simp add: value_extract_eq)
  from c r
    exact_type_identity [of Plain_int Plain_int "[Long_int]" integer_conversions Short_int "\<lambda>v. v" 2
      "[(Plain_int, 1)]" "[(Long_int, 3)]" Plain_int "\<lambda>v. v" 5 5 Plain_int 0]
    exact_type_identity [of Plain_int Plain_int "[Long_int]" integer_conversions Short_int "\<lambda>v. v" 2
      "[(Long_int, 1)]" "[(Plain_int, 3)]" Plain_int "\<lambda>v. v" 5 5 Plain_int 0]
  show ?thesis by simp
qed

text \<open>
  Claim C8: two packs with the same sequence of element types get the same result from
  \<^verbatim>\<open>check\<close> and the same result from \<^verbatim>\<open>no_duplicates\<close>, whatever their values
  are.
\<close>

theorem validation_depends_on_types_only:
  "map fst pack' = map fst pack \<Longrightarrow>
     check conv TypeFirst TypesRest pack' = check conv TypeFirst TypesRest pack \<and>
     no_duplicates conv pack' = no_duplicates conv pack"
proof -
  assume t: "map fst pack' = map fst pack"
  have "list_all (\<lambda>p. fst p \<in> set (TypeFirst # TypesRest)) pack =
          list_all (\<lambda>X. X \<in> set (TypeFirst # TypesRest)) (map fst pack)" for pack :: "('a \<times> 'b) list"
    by (induction pack) simp_all
  with t have "check conv TypeFirst TypesRest pack' = check conv TypeFirst TypesRest pack"
    by (simp only: check_eq)
  moreover from t have "no_duplicates conv pack' = no_duplicates conv pack"
    by (simp only: no_duplicates_eq)
  ultimately show ?thesis by (intro conjI)
qed

theorem validation_depends_on_types_only_witness:
  "check scoped_enums Input [Pull] [(Pull, 3), (Input, 1), (Drive, 0)] =
     check scoped_enums Input [Pull] [(Pull, 0), (Input, 0), (Drive, 4)] \<and>
   check scoped_enums Input [Pull] [(Pull, 3), (Input, 1), (Drive, 0)] = Some False \<and>
   no_duplicates scoped_enums [(Pull, 3), (Input, 1), (Drive, 0)] =
     no_duplicates scoped_enums [(Pull, 0), (Input, 0), (Drive, 4)] \<and>
   no_duplicates scoped_enums [(Pull, 3), (Input, 1), (Drive, 0)] = Some True"
proof -
  have t: "map fst [(Pull, 3::int), (Input, 1), (Drive, 0)] =
      map fst [(Pull, 0::int), (Input, 0), (Drive, 4)]"
    by simp
  have c: "check scoped_enums Input [Pull] [(Pull, 3), (Input, 1), (Drive, 0)] = Some False"
    by (simp add: check_eq)
  have n: "no_duplicates scoped_enums [(Pull, 3), (Input, 1), (Drive, 0)] = Some True"
    by (simp add: no_duplicates_eq)
  from validation_depends_on_types_only [OF t, of scoped_enums Input "[Pull]"] c n
  show ?thesis by (simp only: simp_thms)
qed




text \<open>
  Claim C10: when the pack has an element whose static type is \<^verbatim>\<open>Type\<close>, the result
  of \<^verbatim>\<open>extract\<close> is the same for any two default values.
\<close>

theorem extract_independent_of_default:
  "\<exists>p\<in>set pack. fst p = Type \<Longrightarrow>
     value_extract conv Type d1 pack = value_extract conv Type d2 pack"
proof -
  assume "\<exists>p\<in>set pack. fst p = Type"
  then have "find (\<lambda>p. fst p = Type) pack \<noteq> None"
    by (auto simp: find_None_iff)
  then show ?thesis
    by (auto simp: value_extract_eq)
qed

theorem extract_independent_of_default_witness:
  "value_extract scoped_enums Input 0 [(Pull, 3), (Input, 1)] =
     value_extract scoped_enums Input 1 [(Pull, 3), (Input, 1)] \<and>
   value_extract scoped_enums Input 0 [(Pull, 3), (Input, 1)] = Some 1"
proof -
  have h: "\<exists>p\<in>set [(Pull, 3::int), (Input, 1)]. fst p = Input" by simp
  have v: "value_extract scoped_enums Input 0 [(Pull, 3), (Input, 1)] = Some 1"
    by (simp add: value_extract_eq)
  from extract_independent_of_default [OF h, of scoped_enums 0 1] v
  show ?thesis by (simp only: simp_thms)
qed

end
